theory Spec2Isabelle
  imports Main
begin

section \<open>Values and errors\<close>

text \<open>
  The run-time values that reach the checks of the library. A JavaScript number is
  modelled by its integral values (\<open>Num\<close>) and the not-a-number value (\<open>NaN\<close>);
  fractions and the two infinities are outside the model. The counts and bounds of
  \<open>take\<close>, \<open>slice\<close> and \<open>drop\<close>, of type \<open>number\<close> in the source, are integers. The
  counters of the library start at 0 and move in steps of 1, so they stay integral.
\<close>

datatype unknown = Undefined | Null | Bool bool | Num int | NaN | Str string

text \<open>\<open>typeof value === "number"\<close>\<close>

fun typeof_number :: "unknown \<Rightarrow> bool" where
  "typeof_number (Num n) = True"
| "typeof_number NaN = True"
| "typeof_number v = False"

text \<open>\<open>isNaN(value)\<close>, on a value whose type is number.\<close>

fun isNaN :: "unknown \<Rightarrow> bool" where
  "isNaN NaN = True"
| "isNaN v = False"

text \<open>\<open>isNumber = (value) => typeof value === "number" && !isNaN(value)\<close>\<close>

definition isNumber :: "unknown \<Rightarrow> bool" where
  "isNumber v = (typeof_number v \<and> \<not> isNaN v)"

text \<open>\<open>throw new Error(msg)\<close> and \<open>throw new TypeError(msg)\<close>, as values.\<close>

datatype error = Error string | TypeError string

section \<open>Iterators\<close>

text \<open>
  An iterator is what its \<open>next()\<close> calls produce from now on: the call does not
  return (\<open>Diverge\<close>), it reports \<open>done\<close> (\<open>Done\<close>), or it returns an element
  together with the iterator that answers the later calls (\<open>Yield\<close>).
  A \<open>for (const e of iter)\<close> loop is a case distinction on the iterator, and a
  generator function is a function that builds the iterator of its \<open>yield\<close>s.
\<close>

codatatype 'a iterator =
    is_Diverge: Diverge
  | is_Done: Done
  | is_Yield: Yield 'a "'a iterator"

text \<open>The iterator of an array (or of the characters of a string).\<close>

primrec fromArray :: "'a list \<Rightarrow> 'a iterator" where
  "fromArray [] = Done"
| "fromArray (x # xs) = Yield x (fromArray xs)"

text \<open>\<open>function* infinity(start = 0) { while (true) yield start++; }\<close>\<close>

primcorec infinity :: "int \<Rightarrow> int iterator" where
  "infinity start = Yield start (infinity (start + 1))"

text \<open>
  \<open>toArray(iter) = Array.from(iter)\<close>: pulls until \<open>done\<close>. The value \<open>None\<close> says
  that the call does not return.
\<close>

partial_function (option) toArray :: "'a iterator \<Rightarrow> 'a list option" where
  "toArray iter = (case iter of
       Diverge \<Rightarrow> None
     | Done \<Rightarrow> Some []
     | Yield e rest \<Rightarrow> Option.bind (toArray rest) (\<lambda>arr. Some (e # arr)))"

section \<open>take (limit in the older module)\<close>

text \<open>
  \<open>let _count = 0;
  for (const e of iter) { if (_count === count) return; yield e; _count += 1; }\<close>
  The second argument of \<open>take_loop\<close> is \<open>_count\<close>. The element \<open>e\<close> is pulled from
  the source before \<open>_count\<close> is compared.
\<close>

primcorec take_loop :: "int \<Rightarrow> int \<Rightarrow> 'a iterator \<Rightarrow> 'a iterator" where
  "take_loop count c iter = (case iter of
       Diverge \<Rightarrow> Diverge
     | Done \<Rightarrow> Done
     | Yield e rest \<Rightarrow> if c = count then Done else Yield e (take_loop count (c + 1) rest))"

definition take_gen :: "int \<Rightarrow> 'a iterator \<Rightarrow> 'a iterator" where
  "take_gen count iter = take_loop count 0 iter"


section \<open>slice\<close>

text \<open>
  \<open>let index = 0;
  for (const e of iter) { if (start <= index && index <= end) { yield e; } index += 1; }\<close>
  One \<open>next()\<close> call of the generator runs the loop up to the next \<open>yield\<close>
  (\<open>slice_seek\<close>): it may pull any number of elements from the source, and it does
  not return when the source never ends and no later index is in range.
\<close>

partial_function (option) slice_seek ::
    "int \<Rightarrow> int \<Rightarrow> int \<Rightarrow> 'a iterator \<Rightarrow> ('a \<times> int \<times> 'a iterator) option option" where
  "slice_seek start end index iter = (case iter of
       Diverge \<Rightarrow> None
     | Done \<Rightarrow> Some None
     | Yield e rest \<Rightarrow>
         if start \<le> index \<and> index \<le> end then Some (Some (e, index + 1, rest))
         else slice_seek start end (index + 1) rest)"

primcorec slice_loop :: "int \<Rightarrow> int \<Rightarrow> int \<Rightarrow> 'a iterator \<Rightarrow> 'a iterator" where
  "slice_loop start end index iter = (case slice_seek start end index iter of
       None \<Rightarrow> Diverge
     | Some None \<Rightarrow> Done
     | Some (Some (e, index', rest)) \<Rightarrow> Yield e (slice_loop start end index' rest))"

definition slice_gen :: "int \<Rightarrow> int \<Rightarrow> 'a iterator \<Rightarrow> 'a iterator" where
  "slice_gen start end iter = slice_loop start end 0 iter"

section \<open>nth\<close>

text \<open>
  The iterator-based \<open>nth\<close>:
  \<open>if (!isNumber(index)) throw new Error("index must be number");
  let i = 0;
  for (const e of iterable) { if (i === index) { return e; } i += 1; }\<close>
  Falling out of the loop returns \<open>undefined\<close>, here \<open>None\<close> inside the result.
\<close>

partial_function (option) nth_loop ::
    "unknown \<Rightarrow> int \<Rightarrow> 'a iterator \<Rightarrow> 'a option option" where
  "nth_loop index i iter = (case iter of
       Diverge \<Rightarrow> None
     | Done \<Rightarrow> Some None
     | Yield e rest \<Rightarrow> if Num i = index then Some (Some e) else nth_loop index (i + 1) rest)"

definition nth_iter :: "unknown \<Rightarrow> 'a iterator \<Rightarrow> (error + 'a option) option" where
  "nth_iter index iterable =
     (if \<not> isNumber index then Some (Inl (Error ''index must be number''))
      else map_option Inr (nth_loop index 0 iterable))"

text \<open>
  The array-based \<open>nth\<close> of \<open>common-utils.ts\<close>:
  \<open>if (!isNumber(index)) throw new Error('index must be number');
  if (!Array.isArray(list)) throw new Error('list must be indexed');
  if (index < 0 || index > list.length - 1) throw new Error('index is out of bound');
  return list[index];\<close>
  The checks are made in this order; the values that fail \<open>isNumber\<close> are the ones
  that are not \<open>Num\<close>. The second argument is an array or something else.
\<close>

datatype 'a list_arg = IsArray "'a list" | NotArray

fun nth_array :: "unknown \<Rightarrow> 'a list_arg \<Rightarrow> error + 'a" where
  "nth_array (Num index) (IsArray list) =
     (if index < 0 \<or> index > int (length list) - 1 then Inl (Error ''index is out of bound'')
      else Inr (list ! nat index))"
| "nth_array (Num index) NotArray = Inl (Error ''list must be indexed'')"
| "nth_array index list = Inl (Error ''index must be number'')"

section \<open>drop, reverse, dropRight\<close>

text \<open>
  \<open>let _count = count;
  for (const e of iterable) { if (_count <= 0) { yield e; } _count -= 1; }\<close>
  One \<open>next()\<close> call skips the elements that are left to drop; the counter goes
  down at every pull, so the call returns whenever the source does.
\<close>

function drop_seek :: "int \<Rightarrow> 'a iterator \<Rightarrow> ('a \<times> int \<times> 'a iterator) option option" where
  "drop_seek c iter = (case iter of
       Diverge \<Rightarrow> None
     | Done \<Rightarrow> Some None
     | Yield e rest \<Rightarrow>
         if c \<le> 0 then Some (Some (e, c - 1, rest)) else drop_seek (c - 1) rest)"
  by pat_completeness auto
termination
  by (relation "measure (\<lambda>(c, iter). nat c)") auto

primcorec drop_loop :: "int \<Rightarrow> 'a iterator \<Rightarrow> 'a iterator" where
  "drop_loop c iter = (case drop_seek c iter of
       None \<Rightarrow> Diverge
     | Some None \<Rightarrow> Done
     | Some (Some (e, c', rest)) \<Rightarrow> Yield e (drop_loop c' rest))"

definition drop_gen :: "int \<Rightarrow> 'a iterator \<Rightarrow> 'a iterator" where
  "drop_gen count iterable = drop_loop count iterable"

text \<open>
  \<open>const reversedArr = toArray(iterable).reverse();
  for (const e of reversedArr) { yield e; }\<close>
\<close>

definition reverse :: "'a iterator \<Rightarrow> 'a iterator" where
  "reverse iterable = (case toArray iterable of
       None \<Rightarrow> Diverge
     | Some arr \<Rightarrow> fromArray (rev arr))"

text \<open>\<open>dropRight(count, iterable) = reverse(drop(count, reverse(iterable)))\<close>\<close>

definition dropRight :: "int \<Rightarrow> 'a iterator \<Rightarrow> 'a iterator" where
  "dropRight count iterable = reverse (drop_gen count (reverse iterable))"

text \<open>
  \<open>Array.prototype.slice(start, end)\<close> of the language: a negative bound counts from
  the end of the array, and both bounds are clamped to the array.
\<close>

definition array_slice :: "int \<Rightarrow> int \<Rightarrow> 'a list \<Rightarrow> 'a list" where
  "array_slice start end arr =
     (let len = int (length arr);
          k = (if start < 0 then max (len + start) 0 else min start len);
          final = (if end < 0 then max (len + end) 0 else min end len)
      in List.take (nat (final - k)) (List.drop (nat k) arr))"

text \<open>
  The array-based \<open>dropRight\<close> of \<open>common-utils.ts\<close>:
  \<open>const arr = Array.from(iterable); const maxLength = arr.length;
  return arr.slice(0, maxLength - length);\<close>
\<close>

definition dropRight_array :: "int \<Rightarrow> 'a iterator \<Rightarrow> 'a list option" where
  "dropRight_array len iterable = (case toArray iterable of
       None \<Rightarrow> None
     | Some arr \<Rightarrow> Some (array_slice 0 (int (length arr) - len) arr))"

section \<open>cat, construct, map, flatMap, interpose\<close>

text \<open>
  \<open>for (const e of iterables) { for (const _e of e) { yield _e; } }\<close>
  \<open>yield_all e k\<close> is the inner loop over \<open>e\<close>, followed by the rest \<open>k\<close> of the outer
  loop.
\<close>

primcorec yield_all :: "'a iterator \<Rightarrow> 'a iterator \<Rightarrow> 'a iterator" where
  "yield_all e k = (case e of
       Diverge \<Rightarrow> Diverge
     | Done \<Rightarrow> k
     | Yield e' rest \<Rightarrow> Yield e' (yield_all rest k))"

primrec cat :: "'a iterator list \<Rightarrow> 'a iterator" where
  "cat [] = Done"
| "cat (e # iterables) = yield_all e (cat iterables)"

text \<open>\<open>construct(head, tails) = cat([head], tails)\<close>\<close>

definition construct :: "'a \<Rightarrow> 'a iterator \<Rightarrow> 'a iterator" where
  "construct head tails = cat [fromArray [head], tails]"

text \<open>\<open>for (const e of iterable) { yield mapper(e); }\<close>\<close>

primcorec map_gen :: "('a \<Rightarrow> 'b) \<Rightarrow> 'a iterator \<Rightarrow> 'b iterator" where
  "map_gen mapper iterable = (case iterable of
       Diverge \<Rightarrow> Diverge
     | Done \<Rightarrow> Done
     | Yield e rest \<Rightarrow> Yield (mapper e) (map_gen mapper rest))"

text \<open>
  \<open>flatMap(mapper, iterable) = cat(...map(mapper, iterable))\<close>: the spread runs the
  mapped iterator to its end before \<open>cat\<close> is called, so the call itself does not
  return on a source that never ends.
\<close>

definition flatMap :: "('a \<Rightarrow> 'b iterator) \<Rightarrow> 'a iterator \<Rightarrow> 'b iterator option" where
  "flatMap mapper iterable = (case toArray (map_gen mapper iterable) of
       None \<Rightarrow> None
     | Some iterables \<Rightarrow> Some (cat iterables))"

text \<open>
  \<open>interpose(inserter, iterable) =
    dropRight(1, flatMap((e) => construct(e, [inserter(e)]), iterable))\<close>
\<close>

definition interpose :: "('a \<Rightarrow> 'a) \<Rightarrow> 'a iterator \<Rightarrow> 'a iterator option" where
  "interpose inserter iterable =
     (case flatMap (\<lambda>e. construct e (fromArray [inserter e])) iterable of
        None \<Rightarrow> None
      | Some flat \<Rightarrow> Some (dropRight 1 flat))"

section \<open>pick\<close>

text \<open>
  The object that \<open>pick\<close> reads has its own properties and the properties it
  inherits through its prototype chain. Keys are strings and property values are
  primitive values.
\<close>

record ('k, 'v) object =
  own :: "'k \<rightharpoonup> 'v"
  inherited :: "'k \<rightharpoonup> 'v"

text \<open>\<open>Object.hasOwn(obj, key)\<close>\<close>

definition hasOwn :: "('k, 'v) object \<Rightarrow> 'k \<Rightarrow> bool" where
  "hasOwn obj key = (own obj key \<noteq> None)"

text \<open>\<open>obj[key]\<close>: the own property, else the inherited one, else \<open>undefined\<close>.\<close>

definition get :: "('k, unknown) object \<Rightarrow> 'k \<Rightarrow> unknown" where
  "get obj key = (case own obj key of
       Some v \<Rightarrow> v
     | None \<Rightarrow> (case inherited obj key of Some v \<Rightarrow> v | None \<Rightarrow> Undefined))"

text \<open>
  The accumulator starts as the literal \<open>{}\<close>: no own property, and
  \<open>Object.prototype\<close> as its prototype. \<open>Object.prototype\<close> is as the language defines
  it: its one setter is the accessor \<open>__proto__\<close>, and its data properties are writable.
\<close>

datatype proto = ObjectPrototype | NullPrototype

record new_object =
  props :: "string \<rightharpoonup> unknown"
  prototype :: proto

definition empty_object :: new_object where
  "empty_object = \<lparr>props = Map.empty, prototype = ObjectPrototype\<rparr>"

text \<open>
  \<open>Object.assign(acc, { [key]: value })\<close>. The source object of the call owns the one
  property \<open>key\<close> (a computed key always defines an own property), and \<open>Object.assign\<close>
  copies it with an assignment \<open>acc[key] = value\<close>. The assignment creates or
  replaces an own data property of \<open>acc\<close>, unless \<open>acc\<close> has no own property \<open>key\<close> and
  inherits a setter for it: for \<open>__proto__\<close>, as long as the prototype is
  \<open>Object.prototype\<close>, the inherited setter runs instead. The setter makes \<open>null\<close> the
  prototype of \<open>acc\<close>, ignores every other primitive value, and defines no property.
\<close>

definition object_assign :: "new_object \<Rightarrow> string \<Rightarrow> unknown \<Rightarrow> new_object" where
  "object_assign acc key v =
     (if key = ''__proto__'' \<and> props acc key = None \<and> prototype acc = ObjectPrototype
      then (if v = Null then acc\<lparr>prototype := NullPrototype\<rparr> else acc)
      else acc\<lparr>props := (props acc)(key \<mapsto> v)\<rparr>)"

text \<open>
  \<open>keys.reduce((acc, key) => {
     if (Object.hasOwn(obj, key)) { return Object.assign(acc, { [key]: obj[key] }); }
     return acc; }, {})\<close>
\<close>

definition pick :: "string list \<Rightarrow> (string, unknown) object \<Rightarrow> new_object" where
  "pick keys obj =
     fold (\<lambda>key acc. if hasOwn obj key then object_assign acc key (get obj key) else acc)
       keys empty_object"

section \<open>reduce\<close>

text \<open>
  The implementation has two branches, chosen by \<open>maybeIterable === undefined\<close>.
  Without an initial value:
  \<open>const first = iterator.next();
  if (first.done) { throw new TypeError(...); }
  accumulator = first.value;
  let result = iterator.next();
  while (!result.done) {
    accumulator = reducer(accumulator, result.value, ++index);
    result = iterator.next(); }\<close>
\<close>

partial_function (option) reduce_while ::
    "('a \<Rightarrow> 'a \<Rightarrow> nat \<Rightarrow> 'a) \<Rightarrow> 'a \<Rightarrow> nat \<Rightarrow> 'a iterator \<Rightarrow> 'a option" where
  "reduce_while reducer accumulator index iterator = (case iterator of
       Diverge \<Rightarrow> None
     | Done \<Rightarrow> Some accumulator
     | Yield v rest \<Rightarrow>
         reduce_while reducer (reducer accumulator v (index + 1)) (index + 1) rest)"

definition reduce :: "('a \<Rightarrow> 'a \<Rightarrow> nat \<Rightarrow> 'a) \<Rightarrow> 'a iterator \<Rightarrow> (error + 'a) option" where
  "reduce reducer iterable = (case iterable of
       Diverge \<Rightarrow> None
     | Done \<Rightarrow> Some (Inl (TypeError
         ''You are trying to reduce of empty iterable with no initial value.''))
     | Yield first rest \<Rightarrow> map_option Inr (reduce_while reducer first 0 rest))"

text \<open>
  With an initial value:
  \<open>accumulator = initialOrIterable;
  for (const item of iterable) { accumulator = reducer(accumulator, item, index++); }\<close>
\<close>

partial_function (option) reduce_for ::
    "('s \<Rightarrow> 'a \<Rightarrow> nat \<Rightarrow> 's) \<Rightarrow> 's \<Rightarrow> nat \<Rightarrow> 'a iterator \<Rightarrow> 's option" where
  "reduce_for reducer accumulator index iterable = (case iterable of
       Diverge \<Rightarrow> None
     | Done \<Rightarrow> Some accumulator
     | Yield item rest \<Rightarrow>
         reduce_for reducer (reducer accumulator item index) (index + 1) rest)"

definition reduce_initial ::
    "('s \<Rightarrow> 'a \<Rightarrow> nat \<Rightarrow> 's) \<Rightarrow> 's \<Rightarrow> 'a iterator \<Rightarrow> (error + 's) option" where
  "reduce_initial reducer initial iterable = map_option Inr (reduce_for reducer initial 0 iterable)"

text \<open>A reducer that records the third argument of each of its invocations.\<close>

definition record_index :: "nat list \<Rightarrow> 'a \<Rightarrow> nat \<Rightarrow> nat list" where
  "record_index acc item index = acc @ [index]"

section \<open>Sequences and what is observed of them\<close>

text \<open>
  A sequence is an iterator whose every \<open>next()\<close> call returns: it ends after
  finitely many elements or it goes on for ever.
\<close>

coinductive proper :: "'a iterator \<Rightarrow> bool" where
  proper_Done: "proper Done"
| proper_Yield: "proper rest \<Longrightarrow> proper (Yield e rest)"

text \<open>The first \<open>k\<close> elements of an iterator, fewer when it ends before.\<close>

primrec prefix :: "nat \<Rightarrow> 'a iterator \<Rightarrow> 'a list" where
  "prefix 0 iter = []"
| "prefix (Suc k) iter = (case iter of Yield e rest \<Rightarrow> e # prefix k rest | _ \<Rightarrow> [])"

text \<open>The element at a zero-based index, \<open>None\<close> when the iterator ends before.\<close>

primrec element_at :: "nat \<Rightarrow> 'a iterator \<Rightarrow> 'a option" where
  "element_at 0 iter = (case iter of Yield e rest \<Rightarrow> Some e | _ \<Rightarrow> None)"
| "element_at (Suc k) iter = (case iter of Yield e rest \<Rightarrow> element_at k rest | _ \<Rightarrow> None)"

text \<open>
  A list with \<open>f\<close> of the preceding element between every two adjacent elements.
\<close>

fun interposed :: "('a \<Rightarrow> 'a) \<Rightarrow> 'a list \<Rightarrow> 'a list" where
  "interposed f [] = []"
| "interposed f [x] = [x]"
| "interposed f (x # y # ys) = x # f x # interposed f (y # ys)"


section \<open>Iterators: basic facts\<close>

lemma toArray_simps [simp]:
  "toArray Diverge = None"
  "toArray Done = Some []"
  "toArray (Yield e rest) = Option.bind (toArray rest) (\<lambda>arr. Some (e # arr))"
  by (simp_all add: toArray.simps)

lemma toArray_fromArray [simp]: "toArray (fromArray xs) = Some xs"
  by (induction xs) simp_all

lemma toArray_Some_fromArray: "toArray iter = Some xs \<Longrightarrow> iter = fromArray xs"
proof (induction xs arbitrary: iter)
  case Nil
  then show ?case by (cases iter) (auto split: bind_splits)
next
  case (Cons x xs)
  then show ?case by (cases iter) (auto split: bind_splits)
qed

lemma infinity_unfold: "infinity k = Yield k (infinity (k + 1))"
  by (subst infinity.code) simp

lemma proper_fromArray [simp]: "proper (fromArray xs)"
  by (induction xs) (auto intro: proper.intros)

lemma proper_infinity: "proper (infinity k)"
proof (coinduction arbitrary: k)
  case proper
  show ?case by (subst infinity_unfold) auto
qed

lemma proper_cases:
  "proper Diverge = False"
  "proper (Yield e rest) = proper rest"
  by (auto elim: proper.cases intro: proper.intros)

lemma toArray_infinity: "toArray (infinity k) = None"
proof (rule ccontr)
  assume "toArray (infinity k) \<noteq> None"
  then obtain xs where "toArray (infinity k) = Some xs" by auto
  then have "infinity k = fromArray xs" by (rule toArray_Some_fromArray)
  then show False
  proof (induction xs arbitrary: k)
    case Nil
    then show ?case by (subst (asm) infinity_unfold) simp
  next
    case (Cons x xs)
    from Cons.prems have "Yield k (infinity (k + 1)) = fromArray (x # xs)"
      by (subst (asm) infinity_unfold)
    then have "infinity (k + 1) = fromArray xs" by auto
    then show ?case by (rule Cons.IH)
  qed
qed

section \<open>take: the first elements\<close>

lemma take_loop_simps [simp]:
  "take_loop count c Diverge = Diverge"
  "take_loop count c Done = Done"
  "take_loop count c (Yield e rest) =
     (if c = count then Done else Yield e (take_loop count (c + 1) rest))"
  by (simp_all add: take_loop.code)

lemma prefix_fromArray [simp]: "prefix k (fromArray xs) = List.take k xs"
proof (induction k arbitrary: xs)
  case 0
  show ?case by simp
next
  case (Suc k)
  then show ?case by (cases xs) simp_all
qed


lemma take_loop_prefix:
  "proper iter \<Longrightarrow> k = nat (count - c) \<Longrightarrow> c \<le> count \<Longrightarrow>
   toArray (take_loop count c iter) = Some (prefix k iter)"
proof (induction k arbitrary: c iter)
  case 0
  then show ?case by (cases iter) (auto simp: proper_cases)
next
  case (Suc k)
  from Suc.prems have lt: "c \<noteq> count" "k = nat (count - (c + 1))" "c + 1 \<le> count" by auto
  show ?case
  proof (cases iter)
    case Diverge
    with Suc.prems show ?thesis by (simp add: proper_cases)
  next
    case Done
    then show ?thesis by simp
  next
    case (Yield e rest)
    with Suc.prems have "proper rest" by (simp add: proper_cases)
    from Suc.IH[OF this lt(2) lt(3)] Yield lt(1) show ?thesis by simp
  qed
qed

text \<open>Once \<open>_count\<close> is beyond \<open>count\<close>, every element of an array is yielded.\<close>

lemma take_loop_negative:
  "count < c \<Longrightarrow> take_loop count c (fromArray xs) = fromArray xs"
  by (induction xs arbitrary: c) auto

lemma take_gen_prefix:
  "proper iter \<Longrightarrow> 0 \<le> n \<Longrightarrow> toArray (take_gen n iter) = Some (prefix (nat n) iter)"
  using take_loop_prefix[of iter "nat n" n 0] by (simp add: take_gen_def)




section \<open>slice: the elements of an index range\<close>

lemma slice_seek_simps [simp]:
  "slice_seek start end index Diverge = None"
  "slice_seek start end index Done = Some None"
  "slice_seek start end index (Yield e rest) =
     (if start \<le> index \<and> index \<le> end then Some (Some (e, index + 1, rest))
      else slice_seek start end (index + 1) rest)"
  by (simp_all add: slice_seek.simps)

lemma slice_loop_simps [simp]:
  "slice_loop start end index Diverge = Diverge"
  "slice_loop start end index Done = Done"
  "slice_loop start end index (Yield e rest) =
     (if start \<le> index \<and> index \<le> end then Yield e (slice_loop start end (index + 1) rest)
      else slice_loop start end (index + 1) rest)"
proof -
  show "slice_loop start end index Diverge = Diverge" by (simp add: slice_loop.code)
  show "slice_loop start end index Done = Done" by (simp add: slice_loop.code)
  show "slice_loop start end index (Yield e rest) =
     (if start \<le> index \<and> index \<le> end then Yield e (slice_loop start end (index + 1) rest)
      else slice_loop start end (index + 1) rest)"
  proof (cases "start \<le> index \<and> index \<le> end")
    case True
    then show ?thesis by (subst slice_loop.code) simp
  next
    case False
    have "slice_loop start end index (Yield e rest) =
        (case slice_seek start end (index + 1) rest of
           None \<Rightarrow> Diverge
         | Some None \<Rightarrow> Done
         | Some (Some (e, index', rest)) \<Rightarrow> Yield e (slice_loop start end index' rest))"
      using False by (subst slice_loop.code) auto
    also have "\<dots> = slice_loop start end (index + 1) rest"
      by (rule slice_loop.code[symmetric])
    finally show ?thesis by (simp only: False if_False)
  qed
qed

lemma slice_loop_fromArray:
  "slice_loop start end (int k) (fromArray xs) =
     fromArray (map snd (filter (\<lambda>(i, x). start \<le> int i \<and> int i \<le> end) (enumerate k xs)))"
proof (induction xs arbitrary: k)
  case Nil
  show ?case by simp
next
  case (Cons x xs)
  from Cons.IH[of "Suc k"]
  have "slice_loop start end (int k + 1) (fromArray xs) =
     fromArray (map snd (filter (\<lambda>(i, x). start \<le> int i \<and> int i \<le> end) (enumerate (Suc k) xs)))"
    by (simp add: add.commute)
  then show ?case by simp
qed

lemma enumerate_filter_nth:
  "map snd (filter (\<lambda>(i, x). P i) (enumerate k xs)) =
     map (\<lambda>i. xs ! (i - k)) (filter P [k..<k + length xs])"
proof (induction xs arbitrary: k)
  case Nil
  show ?case by simp
next
  case (Cons x xs)
  have shift: "map (\<lambda>i. (x # xs) ! (i - k)) (filter P [Suc k..<Suc k + length xs]) =
      map (\<lambda>i. xs ! (i - Suc k)) (filter P [Suc k..<Suc k + length xs])"
  proof (rule map_cong[OF refl])
    fix i
    assume "i \<in> set (filter P [Suc k..<Suc k + length xs])"
    then have "i - k = Suc (i - Suc k)" by auto
    then show "(x # xs) ! (i - k) = xs ! (i - Suc k)" by simp
  qed
  have upt: "[k..<k + length (x # xs)] = k # [Suc k..<Suc k + length xs]"
    by (subst upt_rec) simp
  show ?case unfolding upt using Cons.IH[of "Suc k"] shift by simp
qed

lemma slice_gen_fromArray:
  "slice_gen start end (fromArray xs) =
     fromArray (map (\<lambda>i. xs ! i) (filter (\<lambda>i. start \<le> int i \<and> int i \<le> end) [0..<length xs]))"
  using slice_loop_fromArray[of start "end" 0 xs]
    enumerate_filter_nth[of "\<lambda>i. start \<le> int i \<and> int i \<le> end" 0 xs]
  by (simp add: slice_gen_def)

text \<open>
  Claim C5. For every finite sequence with elements \<open>xs\<close> and every \<open>start\<close> and \<open>end\<close>,
  \<open>slice(start, end, seq)\<close> yields the elements \<open>xs ! i\<close> whose zero-based index \<open>i\<close>
  satisfies \<open>start \<le> i \<le> end\<close>, both bounds included, in the order of the source.
\<close>

theorem slice_index_range:
  "toArray iter = Some xs \<Longrightarrow>
   toArray (slice_gen start end iter) =
     Some (map (\<lambda>i. xs ! i) (filter (\<lambda>i. start \<le> int i \<and> int i \<le> end) [0..<length xs]))"
  by (drule toArray_Some_fromArray) (simp add: slice_gen_fromArray)

theorem slice_index_range_witness:
  "toArray (fromArray ''abcde'') = Some ''abcde''
   \<and> toArray (slice_gen 2 3 (fromArray ''abcde'')) = Some ''cd''"
proof -
  have h: "toArray (fromArray ''abcde'') = Some ''abcde''" by simp
  have "map (\<lambda>i. ''abcde'' ! i) (filter (\<lambda>i. 2 \<le> int i \<and> int i \<le> 3) [0..<length ''abcde'']) = ''cd''"
    by code_simp
  with slice_index_range[OF h, of 2 3] h show ?thesis by simp
qed

section \<open>slice: what it pulls from its source\<close>

lemma slice_seek_exhausts:
  assumes "slice_seek start end index iter = Some r"
  shows "case r of
           None \<Rightarrow> \<exists>xs. toArray iter = Some xs
         | Some (e, index', rest) \<Rightarrow> (\<forall>ys. toArray rest = Some ys \<longrightarrow> (\<exists>xs. toArray iter = Some xs))"
proof (induction rule: slice_seek.raw_induct[OF _ assms])
  case (1 seek start "end" index iter r)
  show ?case
  proof (cases iter)
    case Diverge
    with 1(2) show ?thesis by simp
  next
    case Done
    with 1(2) show ?thesis by auto
  next
    case (Yield e rest)
    show ?thesis
    proof (cases "start \<le> index \<and> index \<le> end")
      case True
      with 1(2) Yield show ?thesis by auto
    next
      case False
      with 1(2) Yield have "seek start end (index + 1) rest = Some r" by simp
      from 1(1)[OF this] Yield show ?thesis by (auto split: option.splits)
    qed
  qed
qed

lemma slice_loop_exhausts:
  "toArray (slice_loop start end index iter) = Some ys \<Longrightarrow> \<exists>xs. toArray iter = Some xs"
proof (induction ys arbitrary: index iter)
  case Nil
  show ?case
  proof (cases "slice_seek start end index iter")
    case None
    with Nil show ?thesis by (subst (asm) slice_loop.code) simp
  next
    case (Some r)
    show ?thesis
    proof (cases r)
      case None
      with slice_seek_exhausts[OF Some] show ?thesis by simp
    next
      case (Some t)
      with \<open>slice_seek start end index iter = Some r\<close> Nil show ?thesis
        by (subst (asm) slice_loop.code) (auto split: bind_splits prod.splits)
    qed
  qed
next
  case (Cons y ys)
  show ?case
  proof (cases "slice_seek start end index iter")
    case None
    with Cons.prems show ?thesis by (subst (asm) slice_loop.code) simp
  next
    case (Some r)
    show ?thesis
    proof (cases r)
      case None
      with slice_seek_exhausts[OF Some] show ?thesis by simp
    next
      case inner: (Some t)
      obtain e index' rest where t: "t = (e, index', rest)" by (cases t)
      from Cons.prems Some inner t have "toArray (slice_loop start end index' rest) = Some ys"
        by (subst (asm) slice_loop.code) (auto split: bind_splits)
      from Cons.IH[OF this] obtain zs where "toArray rest = Some zs" by auto
      with slice_seek_exhausts[OF Some] inner t show ?thesis by auto
    qed
  qed
qed

lemma slice_gen_returns_iff:
  "(toArray (slice_gen start end iter) = None) = (toArray iter = None)"
proof
  assume "toArray (slice_gen start end iter) = None"
  show "toArray iter = None"
  proof (rule ccontr)
    assume "toArray iter \<noteq> None"
    then obtain xs where "toArray iter = Some xs" by auto
    then have "iter = fromArray xs" by (rule toArray_Some_fromArray)
    with \<open>toArray (slice_gen start end iter) = None\<close> show False
      by (simp add: slice_gen_fromArray)
  qed
next
  assume "toArray iter = None"
  show "toArray (slice_gen start end iter) = None"
  proof (rule ccontr)
    assume "toArray (slice_gen start end iter) \<noteq> None"
    then obtain ys where "toArray (slice_loop start end 0 iter) = Some ys"
      by (auto simp: slice_gen_def)
    from slice_loop_exhausts[OF this] \<open>toArray iter = None\<close> show False by simp
  qed
qed

text \<open>
  Claim C10. Materialising \<open>slice(start, end, seq)\<close> returns exactly when materialising
  the source returns: the loop goes on pulling after index \<open>end\<close>, and is left only
  when the source is exhausted. Over the never-ending \<open>infinity\<close> it does not return,
  for any bounds, where \<open>take\<close> with a count \<open>n \<ge> 0\<close> does.
\<close>

theorem slice_pulls_whole_source:
  "(toArray (slice_gen start end iter) = None) = (toArray iter = None)
   \<and> toArray (slice_gen start end (infinity k)) = None
   \<and> (0 \<le> n \<longrightarrow> toArray (take_gen n (infinity k)) \<noteq> None)"
  using slice_gen_returns_iff[of start "end" iter] slice_gen_returns_iff[of start "end" "infinity k"]
    take_gen_prefix[OF proper_infinity, of n k]
  by (simp add: toArray_infinity)

theorem slice_pulls_whole_source_witness:
  "(0::int) \<le> 2
   \<and> toArray (slice_gen 0 1 (infinity 0)) = None
   \<and> toArray (take_gen 2 (infinity 0)) \<noteq> None
   \<and> toArray (slice_gen 0 1 (fromArray [5, 6, 7 :: int])) \<noteq> None"
  using slice_pulls_whole_source[of 0 1 "infinity 0" 0 2]
    slice_pulls_whole_source[of 0 1 "fromArray [5, 6, 7 :: int]" 0 2]
  by simp

section \<open>nth\<close>

lemma isNumber_iff: "isNumber v = (\<exists>n. v = Num n)"
  by (cases v) (simp_all add: isNumber_def)

lemma nth_loop_simps [simp]:
  "nth_loop index i Diverge = None"
  "nth_loop index i Done = Some None"
  "nth_loop index i (Yield e rest) =
     (if Num i = index then Some (Some e) else nth_loop index (i + 1) rest)"
  by (simp_all add: nth_loop.simps)

lemma element_at_fromArray:
  "element_at k (fromArray xs) = (if k < length xs then Some (xs ! k) else None)"
proof (induction k arbitrary: xs)
  case 0
  show ?case by (cases xs) simp_all
next
  case (Suc k)
  then show ?case by (cases xs) simp_all
qed

lemma nth_loop_element_at:
  "proper iter \<Longrightarrow> k = nat (index - i) \<Longrightarrow> i \<le> index \<Longrightarrow>
   nth_loop (Num index) i iter = Some (element_at k iter)"
proof (induction k arbitrary: i iter)
  case 0
  then show ?case by (cases iter) (auto simp: proper_cases)
next
  case (Suc k)
  from Suc.prems have lt: "i \<noteq> index" "k = nat (index - (i + 1))" "i + 1 \<le> index" by auto
  show ?case
  proof (cases iter)
    case Diverge
    with Suc.prems show ?thesis by (simp add: proper_cases)
  next
    case Done
    then show ?thesis by simp
  next
    case (Yield e rest)
    with Suc.prems have "proper rest" by (simp add: proper_cases)
    from Suc.IH[OF this lt(2) lt(3)] Yield lt(1) show ?thesis by simp
  qed
qed

lemma nth_loop_passed:
  "index < i \<Longrightarrow> nth_loop (Num index) i (fromArray xs) = Some None"
  by (induction xs arbitrary: i) auto

lemma nth_loop_infinity_bound:
  assumes "nth_loop index i iter = Some r"
  shows "\<forall>n k. index = Num n \<and> iter = infinity k \<longrightarrow> i \<le> n"
proof (induction rule: nth_loop.raw_induct[OF _ assms])
  case (1 loop index i iter r)
  show ?case
  proof (intro allI impI)
    fix n k
    assume h: "index = Num n \<and> iter = infinity k"
    then have iter: "iter = Yield k (infinity (k + 1))" by (subst infinity_unfold[symmetric]) simp
    show "i \<le> n"
    proof (cases "Num i = index")
      case True
      with h show ?thesis by simp
    next
      case False
      with 1(2) iter have "loop index (i + 1) (infinity (k + 1)) = Some r" by simp
      from 1(1)[OF this] h have "i + 1 \<le> n" by blast
      then show ?thesis by simp
    qed
  qed
qed

lemma nth_iter_not_number:
  "\<not> isNumber index \<Longrightarrow> nth_iter index iter = Some (Inl (Error ''index must be number''))"
  by (simp add: nth_iter_def)

lemma nth_iter_element_at:
  "proper iter \<Longrightarrow> 0 \<le> i \<Longrightarrow> nth_iter (Num i) iter = Some (Inr (element_at (nat i) iter))"
  using nth_loop_element_at[of iter "nat i" i 0] by (simp add: nth_iter_def isNumber_iff)

lemma nth_iter_fromArray:
  "nth_iter (Num i) (fromArray xs) =
     Some (Inr (if 0 \<le> i \<and> nat i < length xs then Some (xs ! nat i) else None))"
proof (cases "0 \<le> i")
  case True
  with nth_iter_element_at[OF proper_fromArray True, of xs] show ?thesis
    by (simp add: element_at_fromArray)
next
  case False
  then have "nth_loop (Num i) 0 (fromArray xs) = Some None" by (intro nth_loop_passed) simp
  with False show ?thesis by (simp add: nth_iter_def isNumber_iff)
qed

lemma nth_array_not_number:
  "\<not> isNumber index \<Longrightarrow> nth_array index list = Inl (Error ''index must be number'')"
  by (cases index) (simp_all add: isNumber_def)

lemma nth_array_index:
  "nth_array (Num i) (IsArray xs) =
     (if 0 \<le> i \<and> nat i < length xs then Inr (xs ! nat i) else Inl (Error ''index is out of bound''))"
  by auto

text \<open>
  What \<open>nth\<close> does, per variant. An index that is not a number (\<open>NaN\<close>
  included) raises the invalid-argument error in both variants, before the sequence is
  touched. The iterator-based \<open>nth\<close> returns, for every sequence and every index
  \<open>i \<ge> 0\<close>, the element at the zero-based index \<open>i\<close>, or \<open>undefined\<close> when the sequence
  has fewer than \<open>i + 1\<close> elements; over an array it returns \<open>undefined\<close> for a negative
  index too. The array-based \<open>nth\<close> returns the element when \<open>0 \<le> i < length\<close> and
  raises the out-of-bound error otherwise.
\<close>

theorem nth_by_variant:
  fixes iter :: "'a iterator" and xs :: "'a list"
  shows "(\<not> isNumber index \<longrightarrow>
       nth_iter index iter = Some (Inl (Error ''index must be number''))
       \<and> nth_array index (IsArray xs) = Inl (Error ''index must be number''))
   \<and> (proper iter \<and> 0 \<le> i \<longrightarrow> nth_iter (Num i) iter = Some (Inr (element_at (nat i) iter)))
   \<and> nth_iter (Num i) (fromArray xs) =
        Some (Inr (if 0 \<le> i \<and> nat i < length xs then Some (xs ! nat i) else None))
   \<and> nth_array (Num i) (IsArray xs) =
        (if 0 \<le> i \<and> nat i < length xs then Inr (xs ! nat i)
         else Inl (Error ''index is out of bound''))"
  using nth_iter_not_number[of index iter] nth_array_not_number[of index "IsArray xs"]
    nth_iter_element_at[of iter i] nth_iter_fromArray[of i xs] nth_array_index[of i xs]
  by simp

theorem nth_by_variant_witness:
  "\<not> isNumber NaN \<and> proper (infinity 0) \<and> (0::int) \<le> 2
   \<and> nth_iter NaN (infinity 0) = Some (Inl (Error ''index must be number''))
   \<and> nth_array NaN (IsArray [0 :: int, 1, 2]) = Inl (Error ''index must be number'')
   \<and> nth_iter (Num 2) (infinity 0) = Some (Inr (Some 2))
   \<and> nth_iter (Num 2) (fromArray [1 :: int, 2, 3]) = Some (Inr (Some 3))
   \<and> nth_iter (Num 3) (fromArray [1 :: int, 2, 3]) = Some (Inr None)
   \<and> nth_array (Num 2) (IsArray [1 :: int, 2, 3]) = Inr 3
   \<and> nth_array (Num 3) (IsArray [1 :: int, 2, 3]) = Inl (Error ''index is out of bound'')"
proof -
  have e: "element_at (nat 2) (infinity 0) = Some 2"
    by (simp add: eval_nat_numeral infinity_unfold[of 0] infinity_unfold[of 1]
        infinity_unfold[of 2])
  have n: "\<not> isNumber NaN" by (simp add: isNumber_def)
  from nth_by_variant[of NaN "infinity 0" "[0, 1, 2]" 2]
    nth_by_variant[of NaN "infinity 0" "[1, 2, 3]" 2]
    nth_by_variant[of NaN "infinity 0" "[1, 2, 3]" 3] e n
  show ?thesis by (simp add: proper_infinity)
qed

text \<open>
  Claim C3 at \<open>nth(-1, infinity())\<close>, with the iterator-based \<open>nth\<close>. The index is a
  number and no element has it, so the claim, like the comment of \<open>nth\<close>, has the call
  return \<open>undefined\<close>, and the array-based \<open>nth\<close> rejects \<open>index < 0\<close> before it looks at
  the list. Here the counter \<open>i\<close> starts at 0 and grows, \<open>i === index\<close> never holds, and
  the call does not return.
\<close>

theorem nth_negative_index_no_return:
  "nth_iter (Num (- 1)) (infinity 0) = None"
proof (rule ccontr)
  assume "nth_iter (Num (- 1)) (infinity 0) \<noteq> None"
  then obtain r where "nth_loop (Num (- 1)) 0 (infinity 0) = Some r"
    by (auto simp: nth_iter_def isNumber_iff)
  from nth_loop_infinity_bound[OF this, rule_format, of "- 1" 0] show False by simp
qed

section \<open>reduce\<close>

lemma reduce_while_simps [simp]:
  "reduce_while reducer accumulator index Diverge = None"
  "reduce_while reducer accumulator index Done = Some accumulator"
  "reduce_while reducer accumulator index (Yield v rest) =
     reduce_while reducer (reducer accumulator v (index + 1)) (index + 1) rest"
  by (simp_all add: reduce_while.simps)

lemma reduce_for_simps [simp]:
  "reduce_for reducer accumulator index Diverge = None"
  "reduce_for reducer accumulator index Done = Some accumulator"
  "reduce_for reducer accumulator index (Yield item rest) =
     reduce_for reducer (reducer accumulator item index) (index + 1) rest"
  by (simp_all add: reduce_for.simps)

lemma reduce_for_fromArray:
  "reduce_for reducer accumulator index (fromArray xs) =
     Some (fold (\<lambda>(i, item) acc. reducer acc item i) (enumerate index xs) accumulator)"
  by (induction xs arbitrary: accumulator index) simp_all

lemma reduce_while_fromArray:
  "reduce_while reducer accumulator index (fromArray xs) =
     Some (fold (\<lambda>(i, item) acc. reducer acc item i) (enumerate (index + 1) xs) accumulator)"
  by (induction xs arbitrary: accumulator index) simp_all

lemma fold_enumerate_foldl_zip:
  "fold (\<lambda>(i, item) acc. f acc item i) (enumerate k xs) a =
     foldl (\<lambda>acc (item, i). f acc item i) a (zip xs [k..<k + length xs])"
proof (induction xs arbitrary: k a)
  case Nil
  show ?case by simp
next
  case (Cons x xs)
  have upt: "[k..<k + length (x # xs)] = k # [Suc k..<Suc k + length xs]"
    by (subst upt_rec) simp
  show ?case unfolding upt using Cons.IH[of "Suc k"] by simp
qed

lemma toArray_empty_iff: "(toArray iter = Some []) = (iter = Done)"
  by (cases iter) (auto split: bind_splits)

lemma reduce_initial_fromArray:
  "reduce_initial reducer initial (fromArray xs) =
     Some (Inr (fold (\<lambda>(index, item) acc. reducer acc item index) (enumerate 0 xs) initial))"
  by (simp add: reduce_initial_def reduce_for_fromArray)

lemma reduce_fromArray:
  "reduce reducer (fromArray (x # xs)) =
     Some (Inr (fold (\<lambda>(index, item) acc. reducer acc item index) (enumerate 1 xs) x))"
  by (simp add: reduce_def reduce_while_fromArray)

lemma reduce_error_iff:
  "(reduce reducer iterable = Some (Inl e)) =
     (iterable = Done \<and>
      e = TypeError ''You are trying to reduce of empty iterable with no initial value.'')"
  by (cases iterable) (auto simp: reduce_def)

lemma reduce_initial_no_error: "reduce_initial reducer initial iterable \<noteq> Some (Inl e)"
  by (auto simp: reduce_initial_def)

text \<open>
  Claim C2, as the code has it. In both call shapes the reducer receives the running
  accumulator, the current element, and the zero-based position of that element in
  the sequence. With an initial value the first invocation is on the element at
  position 0 and receives 0 (\<open>index++\<close>); without one the element at position 0 seeds the
  accumulator, and the first invocation is on the element at position 1 and receives
  1 (\<open>++index\<close>), which there is also the count of folds.
\<close>

theorem reduce_index_argument:
  fixes reducer :: "'s \<Rightarrow> 'a \<Rightarrow> nat \<Rightarrow> 's" and reducer' :: "'a \<Rightarrow> 'a \<Rightarrow> nat \<Rightarrow> 'a"
  shows "(toArray iterable = Some xs \<longrightarrow>
       reduce_initial reducer initial iterable =
         Some (Inr (fold (\<lambda>(index, item) acc. reducer acc item index) (enumerate 0 xs) initial)))
   \<and> (toArray iterable = Some (x # xs) \<longrightarrow>
       reduce reducer' iterable =
         Some (Inr (fold (\<lambda>(index, item) acc. reducer' acc item index) (enumerate 1 xs) x)))"
  using reduce_initial_fromArray[of reducer initial xs] reduce_fromArray[of reducer' x xs]
  by (auto dest!: toArray_Some_fromArray)

theorem reduce_index_argument_witness:
  "toArray (fromArray [10, 20, 30 :: int]) = Some [10, 20, 30]
   \<and> reduce_initial (\<lambda>acc item index. acc @ [(item, index)]) [] (fromArray [10, 20, 30 :: int])
       = Some (Inr [(10, 0), (20, 1), (30, 2)])
   \<and> reduce (\<lambda>acc item index. acc + item * int index) (fromArray [10, 20, 30 :: int])
       = Some (Inr (10 + 20 * 1 + 30 * 2))"
proof -
  have h: "toArray (fromArray [10, 20, 30 :: int]) = Some [10, 20, 30]" by simp
  from reduce_index_argument[of "fromArray [10, 20, 30 :: int]" "[10, 20, 30]"
      "\<lambda>acc item index. acc @ [(item, index)]" "[]" 10 "\<lambda>acc item index. acc + item * int index"]
    reduce_index_argument[of "fromArray [10, 20, 30 :: int]" "[20, 30]"
      "\<lambda>acc item index. acc @ [(item, index)]" "[]" 10 "\<lambda>acc item index. acc + item * int index"]
  show ?thesis by simp
qed

text \<open>
  Claim C2 as stated fails with an initial value: a reducer that records its third
  argument sees 0, 1, 2 over three elements, not 1, 2, 3.
\<close>

theorem reduce_initial_first_index_counterexample:
  "reduce_initial record_index [] (fromArray [10, 20, 30 :: int]) = Some (Inr [0, 1, 2])"
  by (simp add: reduce_initial_def record_index_def)

text \<open>
  Claim C7. Without an initial value, over a finite sequence with first element \<open>x\<close>
  and further elements \<open>xs\<close>, \<open>reduce\<close> is the left fold over \<open>xs\<close> that starts from \<open>x\<close>;
  the elements of \<open>xs\<close> come with the indices 1, 2, ...
\<close>

theorem reduce_seeds_with_first:
  "toArray iterable = Some (x # xs) \<Longrightarrow>
   reduce reducer iterable =
     Some (Inr (foldl (\<lambda>acc (item, index). reducer acc item index) x
                  (zip xs [1..<1 + length xs])))"
  using reduce_fromArray[of reducer x xs]
    fold_enumerate_foldl_zip[of reducer 1 xs x]
  by (auto dest!: toArray_Some_fromArray)

theorem reduce_seeds_with_first_witness:
  "toArray (fromArray [1, 2, 3, 4 :: int]) = Some (1 # [2, 3, 4])
   \<and> reduce (\<lambda>acc item index. acc + item) (fromArray [1, 2, 3, 4 :: int]) = Some (Inr 10)"
proof -
  have h: "toArray (fromArray [1, 2, 3, 4 :: int]) = Some (1 # [2, 3, 4])" by simp
  have "[1..<1 + length [2, 3, 4 :: int]] = [1, 2, 3]" by code_simp
  with reduce_seeds_with_first[OF h, of "\<lambda>acc item index. acc + item"] h
  show ?thesis by simp
qed

text \<open>
  Claim C8. Without an initial value \<open>reduce\<close> raises an error exactly when the
  sequence is empty; with an initial value it never raises, it returns for every
  finite sequence, and on the empty sequence it returns the initial value. \<open>reduce\<close>
  is a plain function, so the error is the outcome of the call itself.
\<close>

theorem reduce_error_cases:
  fixes reducer :: "'a \<Rightarrow> 'a \<Rightarrow> nat \<Rightarrow> 'a" and reducer' :: "'s \<Rightarrow> 'a \<Rightarrow> nat \<Rightarrow> 's"
  shows "((\<exists>e. reduce reducer iterable = Some (Inl e)) = (toArray iterable = Some []))
   \<and> (\<forall>e. reduce_initial reducer' initial iterable \<noteq> Some (Inl e))
   \<and> (toArray iterable = Some xs \<longrightarrow>
        (\<exists>v. reduce_initial reducer' initial iterable = Some (Inr v)))
   \<and> (toArray iterable = Some [] \<longrightarrow>
        reduce_initial reducer' initial iterable = Some (Inr initial))"
  using reduce_initial_fromArray[of reducer' initial xs]
    reduce_initial_fromArray[of reducer' initial "[]"]
  by (auto simp: reduce_error_iff toArray_empty_iff reduce_initial_no_error
      dest!: toArray_Some_fromArray)

theorem reduce_error_cases_witness:
  "toArray (fromArray ([] :: int list)) = Some []
   \<and> (\<exists>e. reduce (\<lambda>acc item index. acc + item) (fromArray ([] :: int list)) = Some (Inl e))
   \<and> reduce_initial (\<lambda>acc item index. acc + item) 5 (fromArray ([] :: int list)) = Some (Inr 5)"
  using reduce_error_cases[of "\<lambda>acc item index. acc + item" "fromArray ([] :: int list)"
      "\<lambda>acc item index. acc + item" 5 "[]"]
  by simp

section \<open>drop, reverse, dropRight\<close>

declare drop_seek.simps [simp del]

lemma drop_seek_simps [simp]:
  "drop_seek c Diverge = None"
  "drop_seek c Done = Some None"
  "drop_seek c (Yield e rest) =
     (if c \<le> 0 then Some (Some (e, c - 1, rest)) else drop_seek (c - 1) rest)"
  by (simp_all add: drop_seek.simps)

lemma drop_loop_simps [simp]:
  "drop_loop c Diverge = Diverge"
  "drop_loop c Done = Done"
  "drop_loop c (Yield e rest) =
     (if c \<le> 0 then Yield e (drop_loop (c - 1) rest) else drop_loop (c - 1) rest)"
proof -
  show "drop_loop c Diverge = Diverge" by (simp add: drop_loop.code)
  show "drop_loop c Done = Done" by (simp add: drop_loop.code)
  show "drop_loop c (Yield e rest) =
     (if c \<le> 0 then Yield e (drop_loop (c - 1) rest) else drop_loop (c - 1) rest)"
  proof (cases "c \<le> 0")
    case True
    then show ?thesis by (subst drop_loop.code) simp
  next
    case False
    have "drop_loop c (Yield e rest) =
        (case drop_seek (c - 1) rest of
           None \<Rightarrow> Diverge
         | Some None \<Rightarrow> Done
         | Some (Some (e, c', rest)) \<Rightarrow> Yield e (drop_loop c' rest))"
      using False by (subst drop_loop.code) simp
    also have "\<dots> = drop_loop (c - 1) rest"
      by (rule drop_loop.code[symmetric])
    finally show ?thesis by (simp only: False if_False)
  qed
qed

lemma drop_loop_fromArray: "drop_loop c (fromArray xs) = fromArray (List.drop (nat c) xs)"
proof (induction xs arbitrary: c)
  case Nil
  show ?case by simp
next
  case (Cons x xs)
  show ?case
  proof (cases "c \<le> 0")
    case True
    with Cons.IH[of "c - 1"] show ?thesis by simp
  next
    case False
    then have "nat c = Suc (nat (c - 1))" by simp
    with Cons.IH[of "c - 1"] False show ?thesis by simp
  qed
qed

lemma reverse_fromArray: "reverse (fromArray xs) = fromArray (rev xs)"
  by (simp add: reverse_def)

lemma dropRight_fromArray:
  "dropRight n (fromArray xs) = fromArray (List.take (length xs - nat n) xs)"
  by (simp add: dropRight_def drop_gen_def reverse_fromArray drop_loop_fromArray rev_drop)

text \<open>
  The iterator-based \<open>dropRight\<close> gives all but the last \<open>n\<close> elements of a finite
  sequence, and nothing when \<open>n\<close> is at least the length.
\<close>

lemma dropRight_all_but_last:
  "toArray iterable = Some xs \<Longrightarrow>
   toArray (dropRight n iterable) = Some (List.take (length xs - nat n) xs)"
  by (drule toArray_Some_fromArray) (simp add: dropRight_fromArray)

text \<open>The array-based \<open>dropRight\<close> does so as long as \<open>n\<close> does not exceed the length.\<close>

lemma dropRight_array_in_range:
  "0 \<le> n \<Longrightarrow> n \<le> int (length xs) \<Longrightarrow>
   dropRight_array n (fromArray xs) = Some (List.take (length xs - nat n) xs)"
  by (auto simp: dropRight_array_def array_slice_def Let_def nat_diff_distrib)

text \<open>
  Claim C4 at \<open>dropRight(4, [1, 2, 3])\<close>. In the array-based variant the end bound
  \<open>maxLength - length\<close> is \<open>-1\<close>, which \<open>Array.prototype.slice\<close> counts from the end of the
  array: the call returns \<open>[1, 2]\<close>, where the claim, and the iterator-based variant,
  give the empty sequence.
\<close>

theorem dropRight_array_beyond_length:
  "dropRight_array 4 (fromArray [1, 2, 3 :: int]) = Some [1, 2]
   \<and> toArray (dropRight 4 (fromArray [1, 2, 3 :: int])) = Some []"
  using dropRight_fromArray[of 4 "[1, 2, 3 :: int]"]
  by (simp add: dropRight_array_def array_slice_def)

section \<open>cat, map, flatMap, interpose\<close>

lemma yield_all_simps [simp]:
  "yield_all Diverge k = Diverge"
  "yield_all Done k = k"
  "yield_all (Yield e' rest) k = Yield e' (yield_all rest k)"
  by (simp_all add: yield_all.code)

lemma yield_all_fromArray: "yield_all (fromArray xs) (fromArray ys) = fromArray (xs @ ys)"
  by (induction xs) simp_all

lemma cat_fromArray: "cat (map fromArray xss) = fromArray (concat xss)"
  by (induction xss) (simp_all add: yield_all_fromArray)

lemma construct_fromArray: "construct head (fromArray tails) = fromArray (head # tails)"
  using cat_fromArray[of "[[head], tails]"] by (simp add: construct_def)

lemma map_gen_simps [simp]:
  "map_gen mapper Diverge = Diverge"
  "map_gen mapper Done = Done"
  "map_gen mapper (Yield e rest) = Yield (mapper e) (map_gen mapper rest)"
  by (simp_all add: map_gen.code)

lemma map_gen_fromArray: "map_gen mapper (fromArray xs) = fromArray (map mapper xs)"
  by (induction xs) simp_all

lemma flatMap_fromArray:
  "flatMap (\<lambda>e. fromArray (g e)) (fromArray xs) = Some (fromArray (concat (map g xs)))"
  using cat_fromArray[of "map g xs"]
  by (simp add: flatMap_def map_gen_fromArray comp_def)

lemma butlast_pairs_interposed:
  "butlast (concat (map (\<lambda>e. [e, f e]) xs)) = interposed f xs"
  by (induction f xs rule: interposed.induct) simp_all

lemma interpose_fromArray:
  "interpose inserter (fromArray xs) = Some (fromArray (interposed inserter xs))"
proof -
  have "interpose inserter (fromArray xs) =
      Some (dropRight 1 (fromArray (concat (map (\<lambda>e. [e, inserter e]) xs))))"
    unfolding interpose_def construct_fromArray flatMap_fromArray by simp
  also have "dropRight 1 (fromArray (concat (map (\<lambda>e. [e, inserter e]) xs))) =
      fromArray (butlast (concat (map (\<lambda>e. [e, inserter e]) xs)))"
    unfolding dropRight_fromArray by (simp add: butlast_conv_take)
  finally show ?thesis by (simp only: butlast_pairs_interposed)
qed

text \<open>
  Claim C6. For every finite sequence with elements \<open>xs\<close>, \<open>interpose(fn, seq)\<close> returns
  an iterator that yields the elements of \<open>xs\<close> in order, with \<open>fn\<close> of the preceding
  element between every two adjacent elements and nothing before the first or after
  the last; a sequence of at most one element comes out unchanged.
\<close>

theorem interpose_between:
  "toArray iterable = Some xs \<Longrightarrow>
   Option.bind (interpose inserter iterable) toArray = Some (interposed inserter xs)
   \<and> (length xs \<le> 1 \<longrightarrow> interposed inserter xs = xs)"
proof -
  assume "toArray iterable = Some xs"
  then have "iterable = fromArray xs" by (rule toArray_Some_fromArray)
  moreover have "length xs \<le> 1 \<longrightarrow> interposed inserter xs = xs"
  proof (cases xs)
    case Nil
    then show ?thesis by simp
  next
    case (Cons a as)
    then show ?thesis by (cases as) auto
  qed
  ultimately show ?thesis by (simp add: interpose_fromArray)
qed

theorem interpose_between_witness:
  "toArray (fromArray [1, 2, 3 :: int]) = Some [1, 2, 3]
   \<and> Option.bind (interpose (\<lambda>n. - n) (fromArray [1, 2, 3 :: int])) toArray
        = Some [1, - 1, 2, - 2, 3]
   \<and> Option.bind (interpose (\<lambda>n. - n) (fromArray [7 :: int])) toArray = Some [7]"
proof -
  have h: "toArray (fromArray [1, 2, 3 :: int]) = Some [1, 2, 3]" by simp
  have h1: "toArray (fromArray [7 :: int]) = Some [7]" by simp
  from interpose_between[OF h, of "\<lambda>n. - n"] interpose_between[OF h1, of "\<lambda>n. - n"]
  show ?thesis by simp
qed

section \<open>pick\<close>

lemma pick_fold:
  "''__proto__'' \<notin> set keys \<Longrightarrow>
   fold (\<lambda>key acc. if hasOwn obj key then object_assign acc key (get obj key) else acc) keys acc0 =
     acc0\<lparr>props := (\<lambda>k. if k \<in> set keys \<and> own obj k \<noteq> None then own obj k else props acc0 k)\<rparr>"
proof (induction keys arbitrary: acc0)
  case Nil
  show ?case by simp
next
  case (Cons key keys)
  from Cons.prems have k: "key \<noteq> ''__proto__''" and ks: "''__proto__'' \<notin> set keys" by auto
  show ?case
    unfolding fold_simps Cons.IH[OF ks]
    using k by (auto simp: hasOwn_def get_def object_assign_def fun_eq_iff)
qed

text \<open>
  For keys other than \<open>__proto__\<close>, the own properties of \<open>pick(keys, obj)\<close> are the own
  properties of \<open>obj\<close> at the keys listed in \<open>keys\<close>, with the values they have in \<open>obj\<close>:
  a key that \<open>obj\<close> does not own, inherited or not, is left out.
\<close>

lemma pick_own_subset:
  "''__proto__'' \<notin> set keys \<Longrightarrow>
   props (pick keys obj) = own obj |` set keys
   \<and> dom (props (pick keys obj)) = set keys \<inter> dom (own obj)
   \<and> prototype (pick keys obj) = ObjectPrototype"
  by (auto simp: pick_def pick_fold empty_object_def restrict_map_def fun_eq_iff dom_def)

lemma pick_examples:
  "props (pick [''foo'']
       \<lparr>own = [''foo'' \<mapsto> Str ''a'', ''bar'' \<mapsto> Num 1], inherited = Map.empty\<rparr>)
     = [''foo'' \<mapsto> Str ''a'']"
  "props (pick [''baz''] \<lparr>own = [''foo'' \<mapsto> Str ''a''], inherited = Map.empty\<rparr>) = Map.empty"
  "props (pick [''toString'']
       \<lparr>own = [''foo'' \<mapsto> Str ''a''], inherited = [''toString'' \<mapsto> Str ''f'']\<rparr>)
     = Map.empty"
  by (auto simp: pick_def hasOwn_def get_def object_assign_def empty_object_def fun_eq_iff)

text \<open>
  Claim C9 at \<open>pick(['__proto__'], obj)\<close>, where \<open>obj\<close> owns the property \<open>__proto__\<close> with
  the value \<open>'a'\<close> (as \<open>JSON.parse('{"__proto__": "a"}')\<close> does). The key is listed and
  is an own property of \<open>obj\<close>, so the claim has it in the result with the value \<open>'a'\<close>;
  \<open>Object.assign\<close> hands the value to the inherited setter, and the result has no
  own property at all.
\<close>

theorem pick_own_proto_key_dropped:
  "hasOwn \<lparr>own = [''__proto__'' \<mapsto> Str ''a''], inherited = Map.empty\<rparr> ''__proto__''
   \<and> get \<lparr>own = [''__proto__'' \<mapsto> Str ''a''], inherited = Map.empty\<rparr> ''__proto__'' = Str ''a''
   \<and> pick [''__proto__''] \<lparr>own = [''__proto__'' \<mapsto> Str ''a''], inherited = Map.empty\<rparr>
       = \<lparr>props = Map.empty, prototype = ObjectPrototype\<rparr>"
  by (simp add: pick_def hasOwn_def get_def object_assign_def empty_object_def)

end
